theory Spec2Isabelle
  imports Main "HOL-Library.Log_Nat"
begin

section \<open>Data model of the allocation engine (src/main.py)\<close>

text \<open>
  The embedding covers \<^verbatim>\<open>compute_allocations\<close> and its helper \<^verbatim>\<open>cents\<close>.
  The database session is replaced by the three things the function reads from it: the
  event's \<^verbatim>\<open>total_amount\<close>, the participant rows of the event (their ids, in the order the
  query yields them) and the pledge rows of the event (in the order the query yields them).

  Both \<^verbatim>\<open>Event.total_amount\<close> and \<^verbatim>\<open>Pledge.value\<close> are columns of type
  \<^verbatim>\<open>Numeric(12, 2)\<close>: decimals with two places. Such a decimal is represented by its
  integer count of hundredths, so the amount 3.00 is \<open>300\<close> and the percentage 50 is
  \<open>5000\<close>. Python's \<^verbatim>\<open>int\<close> is unbounded and is \<open>int\<close> here. The source computes
  percentages and the returned amounts in binary floating point; the embedding has the
  IEEE 754 doubles of Python's \<^verbatim>\<open>float\<close> with their rounding to nearest, ties to even,
  their overflow to infinity and the \<^verbatim>\<open>OverflowError\<close> Python raises on them.

  The column \<^verbatim>\<open>Pledge.type\<close> is a string, commented \<^verbatim>\<open>equal|volunteer_overpay|underpay_bid\<close>;
  any other string is \<open>OtherType\<close>. The column \<^verbatim>\<open>Pledge.value_type\<close> is a nullable string,
  commented \<^verbatim>\<open>percent|fixed or None\<close>; \<open>NoValueType\<close> stands for \<^verbatim>\<open>None\<close> and for any
  other string. \<^verbatim>\<open>Pledge.value\<close> is nullable, hence an option.
\<close>

datatype pledge_type = Equal | VolunteerOverpay | UnderpayBid | OtherType

datatype vtype = Percent | Fixed | NoValueType

record pledge =
  participant_id :: int
  ptype :: pledge_type
  value_type :: vtype
  pvalue :: "int option"
  active :: bool

text \<open>
  The exceptions the function can raise: a \<^verbatim>\<open>KeyError\<close> from \<^verbatim>\<open>targets[pid]\<close> when
  \<^verbatim>\<open>pid\<close> is no participant of the event, a \<^verbatim>\<open>TypeError\<close> from \<^verbatim>\<open>float(None)\<close>, and an
  \<^verbatim>\<open>OverflowError\<close> from an \<^verbatim>\<open>int\<close> too large for a \<^verbatim>\<open>float\<close> or from \<^verbatim>\<open>round\<close> of an
  infinite \<^verbatim>\<open>float\<close>.
\<close>

datatype error = KeyError | TypeError | OverflowError

text \<open>
  The dict \<^verbatim>\<open>targets\<close> (participant id to cents) is an association list in insertion order,
  which is the iteration order of a Python dict.
\<close>

type_synonym targets = "(int \<times> int) list"

section \<open>Helpers\<close>

text \<open>\<^verbatim>\<open>round(n / d)\<close> for \<open>d > 0\<close>: nearest integer, a tie goes to the even neighbour.\<close>

definition py_round :: "int \<Rightarrow> int \<Rightarrow> int" where
  "py_round n d =
     (let q = n div d; r = n mod d
      in if 2 * r < d then q
         else if d < 2 * r then q + 1
         else if even q then q else q + 1)"

text \<open>
  \<^verbatim>\<open>def cents(d): return int(round(float(d) * 100))\<close>, with \<open>d\<close> in hundredths. Its argument
  is always a \<^verbatim>\<open>Numeric(12, 2)\<close> value, of at most twelve digits: there the double
  \<^verbatim>\<open>float(d) * 100\<close> is within a thousandth of the count of hundredths, and \<^verbatim>\<open>round\<close>
  returns that count.
\<close>

definition cents :: "int \<Rightarrow> int" where
  "cents d = py_round (d * 100) 100"

section \<open>Python's floats\<close>

text \<open>
  A finite double is a mantissa and an exponent, the value being \<open>m * 2 ^ e\<close>; the sign
  is the mantissa's. Both infinities are \<open>Infinity\<close>: the source only ever passes them to
  \<^verbatim>\<open>round\<close>, which raises on either. No operation of the source produces a NaN (its
  floats come from finite decimals and from ints, and it never multiplies an infinity).
\<close>

datatype double = Finite int int | Infinity

definition pow2 :: "int \<Rightarrow> int" where
  "pow2 k = 2 ^ nat k"

text \<open>\<open>\<lfloor>log\<^sub>2 (a / d)\<rfloor>\<close> for positive \<open>a\<close> and \<open>d\<close>.\<close>

definition ilog2 :: "int \<Rightarrow> int \<Rightarrow> int" where
  "ilog2 a d =
     (let k = bitlen a - bitlen d
      in if 0 \<le> k then (if d * pow2 k \<le> a then k else k - 1)
         else (if d \<le> a * pow2 (- k) then k else k - 1))"

text \<open>
  The double nearest to the rational \<open>n / d\<close> (\<open>d > 0\<close>), ties to the even mantissa:
  53 bits of mantissa, exponents from -1022 (below it the doubles are subnormal, with the
  fixed quantum \<open>2 ^ -1074\<close>) to 1023 (above it the result is infinite). The result is
  normalised: a mantissa rounded up to \<open>2 ^ 53\<close> moves to the next exponent.
\<close>

definition to_double :: "int \<Rightarrow> int \<Rightarrow> double" where
  "to_double n d =
     (if n = 0 then Finite 0 0
      else
        let a = \<bar>n\<bar>;
            e = ilog2 a d;
            p = max e (- 1022) - 52;
            m = (if 0 \<le> p then py_round a (d * pow2 p) else py_round (a * pow2 (- p)) d)
        in if m = 0 then Finite 0 0
           else if m = pow2 53 then
             (if 1023 < p + 53 then Infinity else Finite (sgn n * pow2 52) (p + 1))
           else if 1023 < p + 52 then Infinity
           else Finite (sgn n * m) p)"

text \<open>The exact value of a finite double, as a numerator and a denominator.\<close>

fun dnum :: "double \<Rightarrow> int" where
  "dnum (Finite m e) = (if 0 \<le> e then m * pow2 e else m)"
| "dnum Infinity = 0"

fun dden :: "double \<Rightarrow> int" where
  "dden (Finite m e) = (if 0 \<le> e then 1 else pow2 (- e))"
| "dden Infinity = 1"

text \<open>The same value as a real number; the proofs on rounding errors are about it.\<close>

definition dval :: "double \<Rightarrow> real" where
  "dval x = real_of_int (dnum x) / real_of_int (dden x)"

text \<open>\<^verbatim>\<open>x * y\<close>, \<^verbatim>\<open>x / 100.0\<close> and \<^verbatim>\<open>x + y\<close> on floats: the exact result, rounded.\<close>

fun fmul :: "double \<Rightarrow> double \<Rightarrow> double" where
  "fmul (Finite m e) (Finite m' e') =
     to_double (dnum (Finite m e) * dnum (Finite m' e'))
       (dden (Finite m e) * dden (Finite m' e'))"
| "fmul _ _ = Infinity"

fun div_100 :: "double \<Rightarrow> double" where
  "div_100 (Finite m e) = to_double (dnum (Finite m e)) (dden (Finite m e) * 100)"
| "div_100 Infinity = Infinity"

fun fadd :: "double \<Rightarrow> double \<Rightarrow> double" where
  "fadd (Finite m e) (Finite m' e') =
     to_double (dnum (Finite m e) * dden (Finite m' e') + dnum (Finite m' e') * dden (Finite m e))
       (dden (Finite m e) * dden (Finite m' e'))"
| "fadd _ _ = Infinity"

text \<open>\<^verbatim>\<open>round(x)\<close> on a float: an \<^verbatim>\<open>int\<close>, ties to even; \<^verbatim>\<open>OverflowError\<close> on an infinity.\<close>

fun round_int :: "double \<Rightarrow> error + int" where
  "round_int (Finite m e) = Inr (py_round (dnum (Finite m e)) (dden (Finite m e)))"
| "round_int Infinity = Inl OverflowError"

text \<open>
  The conversion of an \<^verbatim>\<open>int\<close> operand of a float operation: correctly rounded, and an
  \<^verbatim>\<open>OverflowError\<close> when the \<^verbatim>\<open>int\<close> is too large.
\<close>

definition float_of_int :: "int \<Rightarrow> error + double" where
  "float_of_int t = (case to_double t 1 of Infinity \<Rightarrow> Inl OverflowError | x \<Rightarrow> Inr x)"

text \<open>
  \<^verbatim>\<open>int(round(t * float(v) / 100.0))\<close>, with the percentage \<open>v\<close> in hundredths:
  \<^verbatim>\<open>float(v)\<close> is the double nearest to the decimal, \<open>t\<close> is converted, the product and
  the quotient are rounded, and \<^verbatim>\<open>round\<close> gives the \<^verbatim>\<open>int\<close>.
\<close>

definition percent_of :: "int \<Rightarrow> int \<Rightarrow> error + int" where
  "percent_of t v =
     (case float_of_int t of
        Inl e \<Rightarrow> Inl e
      | Inr x \<Rightarrow> round_int (div_100 (fmul x (to_double v 100))))"

text \<open>
  \<^verbatim>\<open>round(x, 2)\<close> on a float: the decimal with two places nearest to the exact value of
  \<open>x\<close> (ties to even), and of that decimal the nearest double.
\<close>

fun round_2 :: "double \<Rightarrow> double" where
  "round_2 (Finite m e) = to_double (py_round (dnum (Finite m e) * 100) (dden (Finite m e))) 100"
| "round_2 Infinity = Infinity"

text \<open>\<^verbatim>\<open>def money(c): return round(c / 100.0 + 1e-9, 2)\<close>\<close>

definition money :: "int \<Rightarrow> error + double" where
  "money c =
     (case float_of_int c of
        Inl e \<Rightarrow> Inl e
      | Inr x \<Rightarrow> Inr (round_2 (fadd (div_100 x) (to_double 1 1000000000))))"

text \<open>\<^verbatim>\<open>sum(xs)\<close> on a list of floats: added from the left, starting from 0.\<close>

definition fsum :: "double list \<Rightarrow> double" where
  "fsum xs = foldl fadd (Finite 0 0) xs"

text \<open>The slice \<^verbatim>\<open>xs[:k]\<close>; a negative \<open>k\<close> counts from the end.\<close>

definition py_take :: "int \<Rightarrow> 'a list \<Rightarrow> 'a list" where
  "py_take k xs =
     (if 0 \<le> k then take (nat k) xs else take (nat (int (length xs) + k)) xs)"

text \<open>\<^verbatim>\<open>d[k] = v\<close>: an existing key keeps its place, a new key goes to the end.\<close>

fun dict_set :: "int \<Rightarrow> int \<Rightarrow> targets \<Rightarrow> targets" where
  "dict_set k v [] = [(k, v)]"
| "dict_set k v ((k', v') # d) =
     (if k' = k then (k, v) # d else (k', v') # dict_set k v d)"

text \<open>\<^verbatim>\<open>d[k] += inc\<close> for a key \<open>k\<close> of \<open>d\<close> (the callers check or know that it is one).\<close>

fun add_at :: "int \<Rightarrow> int \<Rightarrow> targets \<Rightarrow> targets" where
  "add_at k inc [] = []"
| "add_at k inc ((k', v') # d) =
     (if k' = k then (k', v' + inc) # d else (k', v') # add_at k inc d)"

text \<open>\<^verbatim>\<open>d[k]\<close> where \<open>k\<close> is known to be a key (it is read off \<open>d\<close> itself).\<close>

definition tget :: "targets \<Rightarrow> int \<Rightarrow> int" where
  "tget d k = (case map_of d k of Some t \<Rightarrow> t | None \<Rightarrow> 0)"

text \<open>A \<^verbatim>\<open>for\<close> loop whose body may raise: the first error ends it.\<close>

fun fold_err :: "('a \<Rightarrow> 's \<Rightarrow> error + 's) \<Rightarrow> 'a list \<Rightarrow> 's \<Rightarrow> error + 's" where
  "fold_err f [] s = Inr s"
| "fold_err f (x # xs) s =
     (case f x s of Inl e \<Rightarrow> Inl e | Inr s' \<Rightarrow> fold_err f xs s')"

section \<open>Phase 1: equal base split\<close>

text \<open>\<^verbatim>\<open>targets = {p.id: base for p in parts}\<close>\<close>

definition init_targets :: "int \<Rightarrow> int list \<Rightarrow> targets" where
  "init_targets base parts = fold (\<lambda>p d. dict_set p base d) parts []"

text \<open>\<^verbatim>\<open>for p in parts[:remainder]: targets[p.id] += 1\<close>\<close>

definition spread_remainder :: "int \<Rightarrow> int list \<Rightarrow> targets \<Rightarrow> targets" where
  "spread_remainder remainder parts d = fold (\<lambda>p. add_at p 1) (py_take remainder parts) d"

section \<open>Phase 2: volunteer overpay\<close>

definition overpay_add :: "targets \<Rightarrow> pledge \<Rightarrow> error + int" where
  "overpay_add d v =
     (case value_type v of
        Percent \<Rightarrow>
          (case map_of d (participant_id v) of
             None \<Rightarrow> Inl KeyError
           | Some t \<Rightarrow>
               (case pvalue v of None \<Rightarrow> Inl TypeError | Some x \<Rightarrow> percent_of t x))
      | Fixed \<Rightarrow> (case pvalue v of None \<Rightarrow> Inl TypeError | Some x \<Rightarrow> Inr (cents x))
      | NoValueType \<Rightarrow> Inr 0)"

definition apply_overpay :: "pledge \<Rightarrow> targets \<Rightarrow> error + targets" where
  "apply_overpay v d =
     (case overpay_add d v of
        Inl e \<Rightarrow> Inl e
      | Inr add \<Rightarrow>
          (case map_of d (participant_id v) of
             None \<Rightarrow> Inl KeyError
           | Some t \<Rightarrow> Inr (add_at (participant_id v) add d)))"

section \<open>Phase 3: underpay bids\<close>

definition bid_shortfall :: "targets \<Rightarrow> pledge \<Rightarrow> error + int" where
  "bid_shortfall d b =
     (case value_type b of
        Percent \<Rightarrow>
          (case map_of d (participant_id b) of
             None \<Rightarrow> Inl KeyError
           | Some t \<Rightarrow>
               (case pvalue b of None \<Rightarrow> Inl TypeError | Some x \<Rightarrow> percent_of t x))
      | Fixed \<Rightarrow>
          (case pvalue b of
             None \<Rightarrow> Inl TypeError
           | Some x \<Rightarrow>
               (case map_of d (participant_id b) of
                  None \<Rightarrow> Inl KeyError
                | Some t \<Rightarrow> Inr (min (cents x) t)))
      | NoValueType \<Rightarrow> Inr 0)"

text \<open>\<^verbatim>\<open>others = [pid for pid in targets if pid != b.participant_id]\<close>\<close>

definition others_of :: "targets \<Rightarrow> int \<Rightarrow> int list" where
  "others_of d pid = filter (\<lambda>k. k \<noteq> pid) (map fst d)"

text \<open>\<^verbatim>\<open>denom = sum(targets[pid] for pid in others) or 1\<close>\<close>

definition denom_of :: "targets \<Rightarrow> int list \<Rightarrow> int" where
  "denom_of d others =
     (let s = sum_list (map (tget d) others) in if s = 0 then 1 else s)"

text \<open>\<^verbatim>\<open>add_map = {pid: int((shortfall * targets[pid]) // denom) for pid in others}\<close>\<close>

definition floor_shares :: "int \<Rightarrow> targets \<Rightarrow> int list \<Rightarrow> targets" where
  "floor_shares shortfall d others =
     map (\<lambda>k. (k, (shortfall * tget d k) div denom_of d others)) others"

text \<open>\<^verbatim>\<open>distributed = sum(add_map.values())\<close>, and the cents the floors left over.\<close>

definition leftover :: "int \<Rightarrow> targets \<Rightarrow> int list \<Rightarrow> int" where
  "leftover shortfall d others =
     shortfall - sum_list (map snd (floor_shares shortfall d others))"

text \<open>
  \<^verbatim>\<open>sorted(others, key=lambda x: targets[x], reverse=True)[:shortfall - distributed]\<close>.
  Python's sort is stable, also with \<^verbatim>\<open>reverse=True\<close>: equal targets keep the order of
  \<^verbatim>\<open>others\<close>. So does \<open>sort_key\<close> on the negated target.
\<close>

definition leftover_recipients :: "int \<Rightarrow> targets \<Rightarrow> int list \<Rightarrow> int list" where
  "leftover_recipients shortfall d others =
     py_take (leftover shortfall d others) (sort_key (\<lambda>k. - tget d k) others)"

text \<open>\<^verbatim>\<open>for pid in ...: add_map[pid] += 1\<close>\<close>

definition add_map :: "int \<Rightarrow> targets \<Rightarrow> int list \<Rightarrow> targets" where
  "add_map shortfall d others =
     fold (\<lambda>k. add_at k 1) (leftover_recipients shortfall d others)
       (floor_shares shortfall d others)"

text \<open>The target of the bidder once the shortfall is taken off, before redistribution.\<close>

definition subtract_shortfall :: "int \<Rightarrow> int \<Rightarrow> targets \<Rightarrow> targets" where
  "subtract_shortfall pid shortfall d = add_at pid (- shortfall) d"

text \<open>\<^verbatim>\<open>for pid, inc in add_map.items(): targets[pid] += inc\<close>\<close>

definition redistribute :: "int \<Rightarrow> int \<Rightarrow> targets \<Rightarrow> targets" where
  "redistribute pid shortfall d =
     fold (\<lambda>(k, inc). add_at k inc) (add_map shortfall d (others_of d pid)) d"

definition apply_bid :: "pledge \<Rightarrow> targets \<Rightarrow> error + targets" where
  "apply_bid b d =
     (case bid_shortfall d b of
        Inl e \<Rightarrow> Inl e
      | Inr shortfall \<Rightarrow>
          if shortfall \<le> 0 then Inr d
          else Inr (redistribute (participant_id b) shortfall
                      (subtract_shortfall (participant_id b) shortfall d)))"

section \<open>Phase 4: final correction\<close>

text \<open>
  \<^verbatim>\<open>max(targets, key=targets.get)\<close>: the first key, in iteration order, of the largest
  value. The dict is never empty where it is called (there is at least one participant).
\<close>

fun max_key :: "targets \<Rightarrow> int" where
  "max_key [] = 0"
| "max_key ((k, t) # d) =
     fst (fold (\<lambda>(k', t') (bk, bt). if bt < t' then (k', t') else (bk, bt)) d (k, t))"

definition final_correction :: "int \<Rightarrow> targets \<Rightarrow> targets" where
  "final_correction total_cents d =
     (let gap = total_cents - sum_list (map snd d)
      in if gap \<noteq> 0 then add_at (max_key d) gap d else d)"

section \<open>The engine\<close>

text \<open>
  \<open>compute_allocations\<close> is the function up to its last line: its result is the dict
  \<^verbatim>\<open>targets\<close>, in integer cents, that the last line converts. \<open>compute_allocations_money\<close>
  is the whole function, with the last line \<^verbatim>\<open>return {pid: money(amt) for ...}\<close>: its
  result is the dict of floats that the caller receives.
\<close>

definition compute_allocations :: "int \<Rightarrow> int list \<Rightarrow> pledge list \<Rightarrow> error + targets" where
  "compute_allocations total_amount parts pledges =
     (if parts = [] then Inr []
      else
        let N = int (length parts);
            total_cents = cents total_amount;
            base = total_cents div N;
            targets0 = init_targets base parts;
            remainder = total_cents - base * N;
            targets1 = spread_remainder remainder parts targets0;
            vops = filter (\<lambda>p. ptype p = VolunteerOverpay \<and> active p) pledges;
            bids = filter (\<lambda>p. ptype p = UnderpayBid \<and> active p) pledges
        in case fold_err apply_overpay vops targets1 of
             Inl e \<Rightarrow> Inl e
           | Inr targets2 \<Rightarrow>
               (case fold_err apply_bid bids targets2 of
                  Inl e \<Rightarrow> Inl e
                | Inr targets3 \<Rightarrow> Inr (final_correction total_cents targets3)))"

fun money_items :: "targets \<Rightarrow> error + (int \<times> double) list" where
  "money_items [] = Inr []"
| "money_items ((pid, amt) # d) =
     (case money amt of
        Inl e \<Rightarrow> Inl e
      | Inr x \<Rightarrow> (case money_items d of Inl e \<Rightarrow> Inl e | Inr r \<Rightarrow> Inr ((pid, x) # r)))"

definition compute_allocations_money ::
    "int \<Rightarrow> int list \<Rightarrow> pledge list \<Rightarrow> error + (int \<times> double) list" where
  "compute_allocations_money total_amount parts pledges =
     (case compute_allocations total_amount parts pledges of
        Inl e \<Rightarrow> Inl e
      | Inr targets \<Rightarrow> money_items targets)"

section \<open>Auxiliary definitions for the statements\<close>

text \<open>
  The constructor call \<^verbatim>\<open>Pledge(participant_id=..., type=..., value_type=..., value=..., active=...)\<close>.
\<close>

definition Pledge :: "int \<Rightarrow> pledge_type \<Rightarrow> vtype \<Rightarrow> int option \<Rightarrow> bool \<Rightarrow> pledge" where
  "Pledge pid k vt v a =
     \<lparr>participant_id = pid, ptype = k, value_type = vt, pvalue = v, active = a\<rparr>"

text \<open>A pledge whose value the engine would read although the row has none.\<close>

definition no_value :: "pledge \<Rightarrow> bool" where
  "no_value p = (value_type p \<noteq> NoValueType \<and> pvalue p = None)"

section \<open>Dictionary and loop lemmas\<close>


lemma cents_id: "cents d = d"
  by (simp add: cents_def py_round_def)

lemma keys_add_at: "map fst (add_at k i d) = map fst d"
  by (induction d) auto

lemma sum_add_at:
  "k \<in> fst ` set d \<Longrightarrow> sum_list (map snd (add_at k i d)) = sum_list (map snd d) + i"
  by (induction d) force+

lemma map_of_add_at_same:
  "map_of d k = Some t \<Longrightarrow> map_of (add_at k i d) k = Some (t + i)"
  by (induction d) auto

lemma keys_fold_add_at: "map fst (fold (\<lambda>p. add_at p i) xs d) = map fst d"
  by (induction xs arbitrary: d) (simp_all add: keys_add_at)

lemma keys_fold_add_pairs: "map fst (fold (\<lambda>(k, inc). add_at k inc) xs d) = map fst d"
  by (induction xs arbitrary: d) (auto simp add: keys_add_at)

lemma keys_dict_set: "fst ` set (dict_set k v d) = insert k (fst ` set d)"
  by (induction d) force+

lemma keys_init_fold:
  "fst ` set (fold (\<lambda>p d. dict_set p b d) ps d) = set ps \<union> fst ` set d"
  by (induction ps arbitrary: d) (simp_all add: keys_dict_set)

lemma keys_init_targets: "fst ` set (init_targets b ps) = set ps"
  using keys_init_fold [of b ps "[]"] by (simp add: init_targets_def)

lemma keys_spread: "map fst (spread_remainder r ps d) = map fst d"
  by (simp add: spread_remainder_def keys_fold_add_at)

lemma max_key_fold_in:
  "fold (\<lambda>(k', t') (bk, bt). if bt < t' then (k', t') else (bk, bt)) d acc \<in> insert acc (set d)"
proof (induction d arbitrary: acc)
  case Nil
  then show ?case by simp
next
  case (Cons x d)
  obtain k t where x: "x = (k, t)" by (cases x)
  obtain bk bt where acc: "acc = (bk, bt)" by (cases acc)
  show ?case using Cons.IH [of "if bt < t then (k, t) else (bk, bt)"]
    by (auto simp add: x acc)
qed

lemma max_key_in: "d \<noteq> [] \<Longrightarrow> max_key d \<in> fst ` set d"
proof (cases d)
  case Nil
  then show "d \<noteq> [] \<Longrightarrow> ?thesis" by simp
next
  case (Cons x d')
  obtain k t where x: "x = (k, t)" by (cases x)
  show ?thesis using max_key_fold_in [of d' "(k, t)"] by (auto simp add: Cons x)
qed

lemma sum_final_correction:
  "d \<noteq> [] \<Longrightarrow> sum_list (map snd (final_correction T d)) = T"
  by (simp add: final_correction_def Let_def sum_add_at max_key_in)

lemma keys_final_correction: "map fst (final_correction T d) = map fst d"
  by (simp add: final_correction_def Let_def keys_add_at)


lemma round_int_cases: "(\<exists>i. round_int x = Inr i) \<or> round_int x = Inl OverflowError"
  by (cases x) simp_all

lemma float_of_int_cases:
  "(\<exists>m e. float_of_int t = Inr (Finite m e)) \<or> float_of_int t = Inl OverflowError"
  by (cases "to_double t 1") (simp_all add: float_of_int_def)

lemma percent_of_cases: "(\<exists>i. percent_of t v = Inr i) \<or> percent_of t v = Inl OverflowError"
proof (cases "float_of_int t")
  case (Inl e)
  with float_of_int_cases [of t] show ?thesis by (simp add: percent_of_def)
next
  case (Inr x)
  with round_int_cases [of "div_100 (fmul x (to_double v 100))"] show ?thesis
    by (simp add: percent_of_def)
qed

lemma money_cases: "(\<exists>x. money c = Inr x) \<or> money c = Inl OverflowError"
  using float_of_int_cases [of c] by (auto simp add: money_def)

lemma money_items_cases:
  "(\<exists>r. money_items d = Inr r \<and>
        list_all2 (\<lambda>(k, x) (k', c). k = k' \<and> money c = Inr x) r d) \<or>
   money_items d = Inl OverflowError"
proof (induction d)
  case Nil
  then show ?case by simp
next
  case (Cons kc d)
  obtain k c where kc: "kc = (k, c)" by (cases kc)
  from money_cases [of c] Cons.IH show ?case
    by (auto simp add: kc)
qed

lemma apply_overpay_cases:
  assumes "participant_id v \<in> fst ` set d"
  shows "(\<exists>d'. apply_overpay v d = Inr d' \<and> map fst d' = map fst d) \<or>
         (apply_overpay v d = Inl TypeError \<and> no_value v) \<or>
         apply_overpay v d = Inl OverflowError"
proof -
  from assms obtain t where t: "map_of d (participant_id v) = Some t"
    by (metis domD dom_map_of_conv_image_fst)
  show ?thesis
  proof (cases "pvalue v")
    case None
    then show ?thesis
      by (cases "value_type v")
         (simp_all add: apply_overpay_def overpay_add_def no_value_def keys_add_at t)
  next
    case (Some x)
    from percent_of_cases [of t x] Some show ?thesis
      by (cases "value_type v")
         (auto simp add: apply_overpay_def overpay_add_def no_value_def keys_add_at t)
  qed
qed

lemma keys_redistribute: "map fst (redistribute pid s d) = map fst d"
  by (simp add: redistribute_def keys_fold_add_pairs)

lemma keys_subtract: "map fst (subtract_shortfall pid s d) = map fst d"
  by (simp add: subtract_shortfall_def keys_add_at)

lemma apply_bid_keys: "apply_bid b d = Inr d' \<Longrightarrow> map fst d' = map fst d"
  by (auto simp add: apply_bid_def keys_redistribute keys_subtract split: sum.splits if_splits)

lemma apply_bid_cases:
  assumes "participant_id b \<in> fst ` set d"
  shows "(\<exists>d'. apply_bid b d = Inr d' \<and> map fst d' = map fst d) \<or>
         (apply_bid b d = Inl TypeError \<and> no_value b) \<or>
         apply_bid b d = Inl OverflowError"
proof -
  from assms obtain t where t: "map_of d (participant_id b) = Some t"
    by (metis domD dom_map_of_conv_image_fst)
  show ?thesis
  proof (cases "pvalue b")
    case None
    then show ?thesis
      by (cases "value_type b")
         (simp_all add: apply_bid_def bid_shortfall_def no_value_def keys_redistribute
            keys_subtract t)
  next
    case (Some x)
    from percent_of_cases [of t x] Some show ?thesis
      by (cases "value_type b")
         (auto simp add: apply_bid_def bid_shortfall_def no_value_def keys_redistribute
            keys_subtract t)
  qed
qed

lemma fold_err_cases:
  assumes step: "\<And>x d. pid x \<in> fst ` set d \<Longrightarrow>
            (\<exists>d'. f x d = Inr d' \<and> map fst d' = map fst d) \<or>
            (f x d = Inl TypeError \<and> no_value x) \<or> f x d = Inl OverflowError"
    and "\<forall>x\<in>set xs. pid x \<in> fst ` set d"
  shows "(\<exists>d'. fold_err f xs d = Inr d' \<and> map fst d' = map fst d) \<or>
         (fold_err f xs d = Inl TypeError \<and> (\<exists>x\<in>set xs. no_value x)) \<or>
         fold_err f xs d = Inl OverflowError"
  using assms(2)
proof (induction xs arbitrary: d)
  case Nil
  then show ?case by simp
next
  case (Cons x xs)
  from Cons.prems have "pid x \<in> fst ` set d" by simp
  from step [OF this] consider
      d' where "f x d = Inr d'" "map fst d' = map fst d"
    | "f x d = Inl TypeError" "no_value x"
    | "f x d = Inl OverflowError"
    by blast
  then show ?case
  proof cases
    case 1
    from 1(2) have "fst ` set d' = fst ` set d" by (metis set_map)
    with Cons.prems have "\<forall>y\<in>set xs. pid y \<in> fst ` set d'" by simp
    from Cons.IH [OF this] show ?thesis using 1 by auto
  next
    case 2
    then show ?thesis by simp
  next
    case 3
    then show ?thesis by simp
  qed
qed


lemma run_cases:
  assumes ne: "parts \<noteq> []"
    and refs: "\<forall>p\<in>set pledges. active p \<longrightarrow> participant_id p \<in> set parts"
  shows "(\<exists>m. compute_allocations T parts pledges = Inr m \<and> sum_list (map snd m) = T \<and>
              map fst m = map fst (init_targets (T div int (length parts)) parts)) \<or>
         (compute_allocations T parts pledges = Inl TypeError \<and>
              (\<exists>p\<in>set pledges. active p \<and> no_value p)) \<or>
         compute_allocations T parts pledges = Inl OverflowError"
proof -
  define N where "N = int (length parts)"
  define d1 where "d1 = spread_remainder (T - T div N * N) parts (init_targets (T div N) parts)"
  define vops where "vops = filter (\<lambda>p. ptype p = VolunteerOverpay \<and> active p) pledges"
  define bids where "bids = filter (\<lambda>p. ptype p = UnderpayBid \<and> active p) pledges"
  have run: "compute_allocations T parts pledges =
      (case fold_err apply_overpay vops d1 of
         Inl e \<Rightarrow> Inl e
       | Inr d2 \<Rightarrow>
           (case fold_err apply_bid bids d2 of
              Inl e \<Rightarrow> Inl e
            | Inr d3 \<Rightarrow> Inr (final_correction T d3)))"
    unfolding compute_allocations_def Let_def cents_id N_def d1_def vops_def bids_def
    using ne by simp
  have k1: "fst ` set d1 = set parts"
    using keys_spread [of "T - T div N * N" parts "init_targets (T div N) parts"]
      keys_init_targets [of "T div N" parts]
    by (metis d1_def set_map)
  have v1: "\<forall>x\<in>set vops. participant_id x \<in> fst ` set d1"
    using refs by (simp add: vops_def k1)
  have kd1: "map fst d1 = map fst (init_targets (T div N) parts)"
    by (simp add: d1_def keys_spread)
  from fold_err_cases [of participant_id apply_overpay vops d1, OF apply_overpay_cases v1]
  consider
      d2 where "fold_err apply_overpay vops d1 = Inr d2" "map fst d2 = map fst d1"
    | "fold_err apply_overpay vops d1 = Inl TypeError" "\<exists>x\<in>set vops. no_value x"
    | "fold_err apply_overpay vops d1 = Inl OverflowError"
    by blast
  then show ?thesis
  proof cases
    case 1
    have k2: "fst ` set d2 = set parts" using 1(2) k1 by (metis set_map)
    have v2: "\<forall>x\<in>set bids. participant_id x \<in> fst ` set d2"
      using refs by (simp add: bids_def k2)
    from fold_err_cases [of participant_id apply_bid bids d2, OF apply_bid_cases v2]
    consider
        d3 where "fold_err apply_bid bids d2 = Inr d3" "map fst d3 = map fst d2"
      | "fold_err apply_bid bids d2 = Inl TypeError" "\<exists>x\<in>set bids. no_value x"
      | "fold_err apply_bid bids d2 = Inl OverflowError"
      by blast
    then show ?thesis
    proof cases
      case d3: 1
      have k3: "fst ` set d3 = set parts" using d3(2) k2 by (metis set_map)
      with ne have "d3 \<noteq> []" by auto
      then have "sum_list (map snd (final_correction T d3)) = T"
        by (rule sum_final_correction)
      moreover have "map fst (final_correction T d3) = map fst (init_targets (T div N) parts)"
        using keys_final_correction [of T d3] d3(2) 1(2) kd1 by simp
      ultimately show ?thesis by (simp add: run 1(1) d3(1) N_def)
    next
      case 2
      then show ?thesis by (auto simp add: run 1(1) bids_def)
    next
      case 3
      then show ?thesis by (simp add: run 1(1))
    qed
  next
    case 2
    then show ?thesis by (auto simp add: run vops_def)
  next
    case 3
    then show ?thesis by (simp add: run)
  qed
qed

section \<open>Lemmas on the equal split\<close>










section \<open>Evaluation, pledge filters and rounding\<close>


lemma filter_drop_equal:
  "k \<noteq> Equal \<Longrightarrow>
   filter (\<lambda>p. ptype p = k \<and> active p) (filter (\<lambda>p. ptype p \<noteq> Equal) pledges) =
   filter (\<lambda>p. ptype p = k \<and> active p) pledges"
  by (induction pledges) auto


lemma returned_Inr:
  assumes "compute_allocations_money T parts pledges = Inr r"
  shows "\<exists>d. compute_allocations T parts pledges = Inr d \<and>
             list_all2 (\<lambda>(k, x) (k', c). k = k' \<and> money c = Inr x) r d"
proof -
  from assms obtain d where d: "compute_allocations T parts pledges = Inr d"
    and r: "money_items d = Inr r"
    by (auto simp add: compute_allocations_money_def split: sum.splits)
  from money_items_cases [of d] r show ?thesis by (auto simp add: d)
qed

section \<open>The amount returned for a target\<close>

text \<open>
  \<open>to_double n d\<close> is within half a unit in the last place of \<open>n / d\<close>; so \<^verbatim>\<open>money\<close>, which
  rounds three times before \<^verbatim>\<open>round(\<dots>, 2)\<close>, stays within half a cent of a target of at
  most \<open>10 ^ 15\<close> cents in magnitude, and returns the double nearest to that target
  divided by 100.
\<close>

lemma py_round_near:
  assumes "0 < d"
  shows "\<bar>real_of_int (py_round n d) - real_of_int n / real_of_int d\<bar> \<le> 1 / 2"
proof -
  define q r where "q = n div d" and "r = n mod d"
  have n: "n = q * d + r" by (simp add: q_def r_def)
  have r: "0 \<le> r" "r < d" using assms by (simp_all add: r_def)
  have x: "real_of_int n / real_of_int d = real_of_int q + real_of_int r / real_of_int d"
    using assms by (simp add: n field_simps)
  consider "2 * r < d" | "d < 2 * r" | "2 * r = d" by linarith
  then show ?thesis
  proof cases
    case 1
    then have res: "py_round n d = q" by (simp add: py_round_def Let_def q_def r_def)
    from 1 have "2 * real_of_int r < real_of_int d" by (metis of_int_less_iff of_int_mult of_int_numeral)
    with assms r have "real_of_int r / real_of_int d < 1 / 2" "0 \<le> real_of_int r / real_of_int d"
      by (simp_all add: field_simps)
    then show ?thesis by (simp add: res x)
  next
    case 2
    then have res: "py_round n d = q + 1" by (simp add: py_round_def Let_def q_def r_def)
    from 2 have "real_of_int d < 2 * real_of_int r" by (metis of_int_less_iff of_int_mult of_int_numeral)
    with assms r have "1 / 2 < real_of_int r / real_of_int d" "real_of_int r / real_of_int d < 1"
      by (simp_all add: field_simps)
    then show ?thesis by (simp add: res x)
  next
    case 3
    then have res: "py_round n d = q \<or> py_round n d = q + 1"
      by (simp add: py_round_def Let_def q_def r_def)
    from 3 have "2 * real_of_int r = real_of_int d" by (metis of_int_mult of_int_numeral)
    with assms have rd: "real_of_int r / real_of_int d = 1 / 2" by (simp add: field_simps)
    from res show ?thesis unfolding x rd by auto
  qed
qed

lemma py_round_unique:
  assumes "0 < d" and "\<bar>real_of_int n / real_of_int d - real_of_int c\<bar> < 1 / 2"
  shows "py_round n d = c"
proof -
  from py_round_near [OF assms(1), of n] assms(2)
  have "\<bar>real_of_int (py_round n d) - real_of_int c\<bar> < 1" by linarith
  then have "\<bar>py_round n d - c\<bar> < 1" by (metis of_int_abs of_int_diff of_int_less_iff of_int_1)
  then show ?thesis by simp
qed

lemma pow2_pos: "0 < pow2 k"
  by (simp add: pow2_def)

lemma real_pow2: "0 \<le> k \<Longrightarrow> real_of_int (pow2 k) = 2 powi k"
  by (simp add: pow2_def power_int_nonneg_exp)

lemma dden_pos: "0 < dden x"
  by (cases x) (simp_all add: pow2_pos)

lemma dval_Finite: "dval (Finite m e) = real_of_int m * 2 powi e"
proof (cases "0 \<le> e")
  case True
  then show ?thesis by (simp add: dval_def real_pow2)
next
  case False
  then have "real_of_int (pow2 (- e)) = 2 powi (- e)" by (intro real_pow2) simp
  then have "dval (Finite m e) = real_of_int m / 2 powi (- e)"
    using False by (simp add: dval_def)
  then show ?thesis by (simp add: power_int_minus divide_inverse)
qed

lemma bitlen_real_bounds:
  assumes "0 < a"
  shows "2 powi (bitlen a - 1) \<le> real_of_int a" and "real_of_int a < 2 powi bitlen a"
proof -
  from assms have b1: "1 \<le> bitlen a" by (simp add: bitlen_alt_def)
  from bitlen_bounds [OF assms] have lo: "2 ^ nat (bitlen a - 1) \<le> a" and hi: "a < 2 ^ nat (bitlen a)"
    by simp_all
  from lo have "real_of_int (2 ^ nat (bitlen a - 1)) \<le> real_of_int a" by (simp only: of_int_le_iff)
  then show "2 powi (bitlen a - 1) \<le> real_of_int a" using b1 by (simp add: power_int_nonneg_exp)
  from hi have "real_of_int a < real_of_int (2 ^ nat (bitlen a))" by (simp only: of_int_less_iff)
  then show "real_of_int a < 2 powi bitlen a" using b1 by (simp add: power_int_nonneg_exp)
qed

lemma ilog2_test:
  assumes "0 < a" and "0 < d"
  shows "ilog2 a d =
     (if real_of_int d * 2 powi (bitlen a - bitlen d) \<le> real_of_int a
      then bitlen a - bitlen d else bitlen a - bitlen d - 1)"
proof -
  define k where "k = bitlen a - bitlen d"
  show ?thesis
  proof (cases "0 \<le> k")
    case True
    have "(d * pow2 k \<le> a) = (real_of_int (d * pow2 k) \<le> real_of_int a)"
      by (simp only: of_int_le_iff)
    also have "\<dots> = (real_of_int d * 2 powi k \<le> real_of_int a)"
      using True by (simp add: real_pow2)
    finally show ?thesis using True by (simp add: ilog2_def Let_def k_def)
  next
    case False
    then have pk: "real_of_int (pow2 (- k)) = 2 powi (- k)" by (intro real_pow2) simp
    have "(d \<le> a * pow2 (- k)) = (real_of_int d \<le> real_of_int (a * pow2 (- k)))"
      by (simp only: of_int_le_iff)
    also have "\<dots> = (real_of_int d \<le> real_of_int a * 2 powi (- k))"
      by (simp add: pk)
    also have "\<dots> = (real_of_int d * 2 powi k \<le> real_of_int a)"
      by (simp add: power_int_minus field_simps)
    finally show ?thesis using False by (simp add: ilog2_def Let_def k_def)
  qed
qed

lemma ilog2_bounds:
  assumes "0 < a" and "0 < d"
  shows "real_of_int d * 2 powi (ilog2 a d) \<le> real_of_int a"
    and "real_of_int a < real_of_int d * 2 powi (ilog2 a d + 1)"
proof -
  define k where "k = bitlen a - bitlen d"
  note A = bitlen_real_bounds [OF assms(1)]
  note D = bitlen_real_bounds [OF assms(2)]
  have two: "(2::real) powi (bitlen a) = 2 powi (k + 1) * 2 powi (bitlen d - 1)"
    by (simp add: k_def flip: power_int_add)
  have two': "(2::real) powi (bitlen a - 1) = 2 powi (k - 1) * 2 powi (bitlen d)"
    by (simp add: k_def flip: power_int_add)
  have "real_of_int a < 2 powi (k + 1) * 2 powi (bitlen d - 1)" using A(2) two by simp
  also have "\<dots> \<le> 2 powi (k + 1) * real_of_int d"
    using D(1) by (intro mult_left_mono) simp_all
  finally have up: "real_of_int a < real_of_int d * 2 powi (k + 1)" by (simp add: mult.commute)
  have "real_of_int d * 2 powi (k - 1) < 2 powi (bitlen d) * 2 powi (k - 1)"
    using D(2) by (intro mult_strict_right_mono) simp_all
  also have "\<dots> \<le> real_of_int a" using A(1) two' by (simp add: mult.commute)
  finally have low: "real_of_int d * 2 powi (k - 1) < real_of_int a" .
  show "real_of_int d * 2 powi (ilog2 a d) \<le> real_of_int a"
    using low by (simp add: ilog2_test [OF assms] flip: k_def)
  have "\<not> real_of_int d * 2 powi k \<le> real_of_int a \<Longrightarrow>
        real_of_int a < real_of_int d * 2 powi (k - 1 + 1)" by simp
  then show "real_of_int a < real_of_int d * 2 powi (ilog2 a d + 1)"
    using up by (auto simp add: ilog2_test [OF assms] simp flip: k_def)
qed

lemma two_powi_add: "(2::real) powi (x + y) = 2 powi x * 2 powi y"
  by (simp add: power_int_add)

lemma to_double_error:
  assumes n0: "n \<noteq> 0" and d: "0 < d"
    and lo: "- 1022 \<le> ilog2 \<bar>n\<bar> d" and hi: "ilog2 \<bar>n\<bar> d \<le> 1022"
  shows "\<exists>m p. to_double n d = Finite m p \<and>
           \<bar>dval (Finite m p) - real_of_int n / real_of_int d\<bar> \<le> 2 powi (ilog2 \<bar>n\<bar> d - 53)"
proof -
  define a where "a = \<bar>n\<bar>"
  define E where "E = ilog2 a d"
  define p where "p = E - 52"
  define s where "s = real_of_int a / (real_of_int d * 2 powi p)"
  define m0 where
    "m0 = (if 0 \<le> p then py_round a (d * pow2 p) else py_round (a * pow2 (- p)) d)"
  from n0 have a: "0 < a" by (simp add: a_def)
  note B = ilog2_bounds [OF a d, folded E_def]
  have dp: "0 < real_of_int d * 2 powi p" using d by simp
  have E52: "(2::real) powi E = 2 powi p * 2 powi 52"
    using two_powi_add [of p 52] by (simp add: p_def)
  have E53: "(2::real) powi (E + 1) = 2 powi p * 2 powi 53"
  proof -
    have eq: "E + 1 = p + 53" unfolding p_def by arith
    show ?thesis unfolding eq by (rule two_powi_add)
  qed
  have s_lo: "2 powi 52 \<le> s"
    unfolding s_def using B(1) dp by (simp add: pos_le_divide_eq E52 mult_ac)
  have s_hi: "s < 2 powi 53"
    unfolding s_def using B(2) dp by (simp add: pos_divide_less_eq E53 mult_ac)
  have near: "\<bar>real_of_int m0 - s\<bar> \<le> 1 / 2"
  proof (cases "0 \<le> p")
    case True
    have "real_of_int a / real_of_int (d * pow2 p) = s"
      using True by (simp add: s_def real_pow2)
    with py_round_near [of "d * pow2 p" a] d pow2_pos [of p] True show ?thesis
      by (simp add: m0_def)
  next
    case False
    then have "real_of_int (pow2 (- p)) = 2 powi (- p)" by (intro real_pow2) simp
    then have pk: "real_of_int (pow2 (- p)) = 1 / 2 powi p"
      by (simp add: power_int_minus divide_inverse)
    have "real_of_int (a * pow2 (- p)) / real_of_int d = s"
      unfolding s_def of_int_mult pk by simp
    with py_round_near [OF d, of "a * pow2 (- p)"] False show ?thesis
      by (simp add: m0_def)
  qed
  have s_lo': "(4503599627370496::real) \<le> s" using s_lo by simp
  have s_hi': "s < (9007199254740992::real)" using s_hi by simp
  have "(4503599627370495::real) < real_of_int m0" using near s_lo' by linarith
  then have "(4503599627370495::int) < m0" by simp
  then have m_lo: "2 ^ 52 \<le> m0" by simp
  have "real_of_int m0 < (9007199254740993::real)" using near s_hi' by linarith
  then have "m0 < (9007199254740993::int)" by simp
  then have m_hi: "m0 \<le> 2 ^ 53" by simp
  have nd: "real_of_int n / real_of_int d = real_of_int (sgn n) * s * 2 powi p"
  proof -
    have "n = sgn n * a" unfolding a_def by (simp add: sgn_mult_abs)
    then have "real_of_int n = real_of_int (sgn n * a)" by (rule arg_cong)
    then have "real_of_int n = real_of_int (sgn n) * real_of_int a" by (simp only: of_int_mult)
    then show ?thesis using d by (simp add: s_def)
  qed
  have sg: "\<bar>real_of_int (sgn n)\<bar> = 1" using n0 by (simp add: sgn_if)
  have maxE: "max E (- 1022) - 52 = p" using lo by (simp add: p_def E_def a_def)
  have val: "\<bar>real_of_int (sgn n) * real_of_int m0 * 2 powi p -
               real_of_int n / real_of_int d\<bar> \<le> 2 powi (E - 53)"
  proof -
    have "real_of_int (sgn n) * real_of_int m0 * 2 powi p - real_of_int n / real_of_int d =
          real_of_int (sgn n) * (real_of_int m0 - s) * 2 powi p"
      by (simp add: nd algebra_simps)
    then have "\<bar>real_of_int (sgn n) * real_of_int m0 * 2 powi p -
               real_of_int n / real_of_int d\<bar> = \<bar>real_of_int m0 - s\<bar> * 2 powi p"
      by (simp add: abs_mult sg)
    also have "\<dots> \<le> 1 / 2 * 2 powi p" using near by (intro mult_right_mono) simp_all
    also have "\<dots> = 2 powi (E - 53)"
    proof -
      have "(2::real) powi p = 2 powi (E - 53) * 2 powi 1"
        using two_powi_add [of "E - 53" 1] by (simp add: p_def)
      then show ?thesis by simp
    qed
    finally show ?thesis .
  qed
  have unf: "to_double n d =
      (if m0 = 0 then Finite 0 0
       else if m0 = pow2 53 then
         (if 1023 < p + 53 then Infinity else Finite (sgn n * pow2 52) (p + 1))
       else if 1023 < p + 52 then Infinity
       else Finite (sgn n * m0) p)"
    using n0 unfolding to_double_def Let_def m0_def a_def [symmetric] E_def [symmetric] maxE
    by simp
  have p53: "\<not> 1023 < p + 53" "\<not> 1023 < p + 52" using hi by (simp_all add: p_def E_def a_def)
  have m_nz: "m0 \<noteq> 0" using m_lo by simp
  show ?thesis
  proof (cases "m0 = pow2 53")
    case True
    then have td: "to_double n d = Finite (sgn n * pow2 52) (p + 1)"
      using m_nz p53 by (simp add: unf)
    have "dval (Finite (sgn n * pow2 52) (p + 1)) =
          real_of_int (sgn n) * real_of_int m0 * 2 powi p"
    proof -
      have "(2::real) powi (p + 1) = 2 powi p * 2" using two_powi_add [of p 1] by simp
      then show ?thesis by (simp add: dval_Finite True pow2_def)
    qed
    with val td show ?thesis by (simp add: E_def a_def)
  next
    case False
    then have td: "to_double n d = Finite (sgn n * m0) p"
      using m_nz p53 by (simp add: unf)
    have "dval (Finite (sgn n * m0) p) = real_of_int (sgn n) * real_of_int m0 * 2 powi p"
      by (simp add: dval_Finite)
    with val td show ?thesis by (simp add: E_def a_def)
  qed
qed

lemma ilog2_range:
  assumes a: "0 < a" and d: "0 < d"
    and lo: "2 powi L \<le> real_of_int a / real_of_int d"
    and hi: "real_of_int a / real_of_int d < 2 powi H"
  shows "L \<le> ilog2 a d" and "ilog2 a d < H"
proof -
  note B = ilog2_bounds [OF a d]
  from d have rd: "0 < real_of_int d" by simp
  from B(1) rd have b1: "2 powi (ilog2 a d) \<le> real_of_int a / real_of_int d"
    by (simp add: pos_le_divide_eq mult.commute)
  from B(2) rd have b2: "real_of_int a / real_of_int d < 2 powi (ilog2 a d + 1)"
    by (simp add: pos_divide_less_eq mult.commute)
  show "ilog2 a d < H"
  proof (rule ccontr)
    assume "\<not> ilog2 a d < H"
    then have "(2::real) powi H \<le> 2 powi (ilog2 a d)" by (intro power_int_increasing) simp_all
    with b1 hi show False by linarith
  qed
  show "L \<le> ilog2 a d"
  proof (rule ccontr)
    assume "\<not> L \<le> ilog2 a d"
    then have "(2::real) powi (ilog2 a d + 1) \<le> 2 powi L" by (intro power_int_increasing) simp_all
    with b2 lo show False by linarith
  qed
qed

lemma powi_m53: "(2::real) powi (x - 53) = 2 powi x / 9007199254740992"
proof -
  have e: "x - 53 = x + (- 53)" by simp
  have "(2::real) powi (x - 53) = 2 powi x * 2 powi (- 53)"
    unfolding e by (rule two_powi_add)
  moreover have "(2::real) powi (- 53) = 1 / 9007199254740992"
    by simp
  ultimately show ?thesis by simp
qed

lemma to_double_rel:
  assumes n0: "n \<noteq> 0" and d: "0 < d"
    and L: "- 1022 \<le> L" and H: "H \<le> 1023"
    and lo: "2 powi L \<le> \<bar>real_of_int n\<bar> / real_of_int d"
    and hi: "\<bar>real_of_int n\<bar> / real_of_int d < 2 powi H"
  shows "\<exists>m p. to_double n d = Finite m p \<and>
           \<bar>dval (Finite m p) - real_of_int n / real_of_int d\<bar>
             \<le> \<bar>real_of_int n\<bar> / real_of_int d / 9007199254740992"
proof -
  from n0 have a: "0 < \<bar>n\<bar>" by simp
  have ra: "real_of_int \<bar>n\<bar> = \<bar>real_of_int n\<bar>" by simp
  note R = ilog2_range [OF a d, unfolded ra, OF lo hi]
  from R L H have r: "- 1022 \<le> ilog2 \<bar>n\<bar> d" "ilog2 \<bar>n\<bar> d \<le> 1022" by simp_all
  from to_double_error [OF n0 d r] obtain m p where td: "to_double n d = Finite m p"
    and err: "\<bar>dval (Finite m p) - real_of_int n / real_of_int d\<bar> \<le> 2 powi (ilog2 \<bar>n\<bar> d - 53)"
    by blast
  from d have rd: "0 < real_of_int d" by simp
  from ilog2_bounds(1) [OF a d] rd
  have b1: "2 powi (ilog2 \<bar>n\<bar> d) \<le> \<bar>real_of_int n\<bar> / real_of_int d"
    by (simp add: pos_le_divide_eq mult.commute)
  have "(2::real) powi (ilog2 \<bar>n\<bar> d - 53) = 2 powi (ilog2 \<bar>n\<bar> d) / 9007199254740992"
    by (rule powi_m53)
  also have "\<dots> \<le> \<bar>real_of_int n\<bar> / real_of_int d / 9007199254740992"
    using b1 by (intro divide_right_mono) simp_all
  finally show ?thesis using td err by (intro exI [of _ m] exI [of _ p]) simp
qed

lemma eps_double: "to_double 1 1000000000 = Finite 4835703278458517 (- 82)"
  by code_simp

lemma dval_eps:
  "0 < dval (Finite 4835703278458517 (- 82))"
  "dval (Finite 4835703278458517 (- 82)) < 2 / 1000000000"
  by (simp_all add: dval_def pow2_def)

lemma money_0: "money 0 = Inr (to_double 0 100)"
  by code_simp

lemma dval_nonzero: "dval x \<noteq> 0 \<Longrightarrow> dnum x \<noteq> 0"
  by (auto simp add: dval_def)

lemma dval_ratio: "real_of_int (dnum x) / real_of_int (dden x) = dval x"
  by (simp add: dval_def)

lemma money_exact:
  assumes c: "\<bar>c\<bar> \<le> 1000000000000000"
  shows "money c = Inr (to_double c 100)"
proof (cases "c = 0")
  case True
  then show ?thesis using money_0 by simp
next
  case False
  define cr where "cr = real_of_int c"
  from False have "1 \<le> \<bar>c\<bar>" by simp
  then have "real_of_int 1 \<le> real_of_int \<bar>c\<bar>" by (simp only: of_int_le_iff)
  then have c1: "1 \<le> \<bar>cr\<bar>" by (simp add: cr_def)
  from c have "real_of_int \<bar>c\<bar> \<le> real_of_int 1000000000000000" by (simp only: of_int_le_iff)
  then have c2: "\<bar>cr\<bar> \<le> 1000000000000000" by (simp add: cr_def)
  have lo0: "2 powi 0 \<le> \<bar>real_of_int c\<bar> / real_of_int 1" using c1 by (simp add: cr_def)
  have hi0: "\<bar>real_of_int c\<bar> / real_of_int 1 < 2 powi 60" using c2 by (simp add: cr_def)
  from to_double_rel [OF False _ _ _ lo0 hi0]
  obtain m0 p0 where t0: "to_double c 1 = Finite m0 p0"
    and e0: "\<bar>dval (Finite m0 p0) - real_of_int c / real_of_int 1\<bar>
               \<le> \<bar>real_of_int c\<bar> / real_of_int 1 / 9007199254740992"
    by auto
  define v0 where "v0 = dval (Finite m0 p0)"
  from e0 have e0': "\<bar>v0 - cr\<bar> \<le> \<bar>cr\<bar> / 9007199254740992" by (simp add: v0_def cr_def)
  have f0: "float_of_int c = Inr (Finite m0 p0)" by (simp add: float_of_int_def t0)
  have v0_lo: "1 / 2 \<le> \<bar>v0\<bar>" using e0' c1 by linarith
  have v0_hi: "\<bar>v0\<bar> \<le> 2000000000000000" using e0' c2 by linarith
  define n1 where "n1 = dnum (Finite m0 p0)"
  define d1 where "d1 = dden (Finite m0 p0) * 100"
  have d1: "0 < d1" using dden_pos [of "Finite m0 p0"] by (simp add: d1_def)
  have "v0 \<noteq> 0" using v0_lo by auto
  then have n1: "n1 \<noteq> 0" unfolding n1_def v0_def by (rule dval_nonzero)
  have r1: "real_of_int n1 / real_of_int d1 = v0 / 100"
    by (simp add: n1_def d1_def v0_def dval_def)
  have ad1: "\<bar>real_of_int d1\<bar> = real_of_int d1" using d1 by simp
  have "\<bar>real_of_int n1 / real_of_int d1\<bar> = \<bar>v0 / 100\<bar>" by (simp only: r1)
  then have a1: "\<bar>real_of_int n1\<bar> / real_of_int d1 = \<bar>v0\<bar> / 100"
    unfolding abs_divide ad1 by simp
  have lo1: "2 powi (- 10) \<le> \<bar>real_of_int n1\<bar> / real_of_int d1"
    unfolding a1 using v0_lo by simp
  have hi1: "\<bar>real_of_int n1\<bar> / real_of_int d1 < 2 powi 60"
    unfolding a1 using v0_hi by simp
  from to_double_rel [OF n1 d1 _ _ lo1 hi1]
  obtain m1 p1 where t1: "to_double n1 d1 = Finite m1 p1"
    and e1: "\<bar>dval (Finite m1 p1) - real_of_int n1 / real_of_int d1\<bar>
               \<le> \<bar>real_of_int n1\<bar> / real_of_int d1 / 9007199254740992"
    by auto
  define v1 where "v1 = dval (Finite m1 p1)"
  from e1 have e1': "\<bar>v1 - v0 / 100\<bar> \<le> \<bar>v0\<bar> / 100 / 9007199254740992"
    unfolding a1 r1 by (simp add: v1_def)
  have q1: "div_100 (Finite m0 p0) = Finite m1 p1"
    using t1 by (simp add: n1_def d1_def)
  have v1_lo: "1 / 250 \<le> \<bar>v1\<bar>" using e1' v0_lo by linarith
  have v1_hi: "\<bar>v1\<bar> \<le> 30000000000000" using e1' v0_hi by linarith
  define ve where "ve = dval (Finite 4835703278458517 (- 82))"
  note ve = dval_eps [folded ve_def]
  define n2 where "n2 = dnum (Finite m1 p1) * dden (Finite 4835703278458517 (- 82)) +
      dnum (Finite 4835703278458517 (- 82)) * dden (Finite m1 p1)"
  define d2 where "d2 = dden (Finite m1 p1) * dden (Finite 4835703278458517 (- 82))"
  have d2: "0 < d2"
    unfolding d2_def
    using dden_pos [of "Finite m1 p1"] dden_pos [of "Finite 4835703278458517 (- 82)"]
    by (rule mult_pos_pos)
  have r2: "real_of_int n2 / real_of_int d2 = v1 + ve"
  proof -
    have p1: "real_of_int (dden (Finite m1 p1)) \<noteq> 0"
      using dden_pos [of "Finite m1 p1"] by simp
    have p2: "real_of_int (dden (Finite 4835703278458517 (- 82))) \<noteq> 0"
      using dden_pos [of "Finite 4835703278458517 (- 82)"] by simp
    show ?thesis
      unfolding n2_def d2_def v1_def ve_def dval_def of_int_add of_int_mult
      using p1 p2 by (simp add: add_divide_distrib)
  qed
  have s_lo: "1 / 500 \<le> \<bar>v1 + ve\<bar>" using v1_lo ve by linarith
  have s_hi: "\<bar>v1 + ve\<bar> \<le> 40000000000000" using v1_hi ve by linarith
  from s_lo have "real_of_int n2 / real_of_int d2 \<noteq> 0" unfolding r2 by auto
  then have n2: "n2 \<noteq> 0" by auto
  have ad2: "\<bar>real_of_int d2\<bar> = real_of_int d2" using d2 by simp
  have "\<bar>real_of_int n2 / real_of_int d2\<bar> = \<bar>v1 + ve\<bar>" by (simp only: r2)
  then have a2: "\<bar>real_of_int n2\<bar> / real_of_int d2 = \<bar>v1 + ve\<bar>"
    unfolding abs_divide ad2 .
  have lo2: "2 powi (- 10) \<le> \<bar>real_of_int n2\<bar> / real_of_int d2"
    unfolding a2 using s_lo by simp
  have hi2: "\<bar>real_of_int n2\<bar> / real_of_int d2 < 2 powi 60"
    unfolding a2 using s_hi by simp
  from to_double_rel [OF n2 d2 _ _ lo2 hi2]
  obtain m2 p2 where t2: "to_double n2 d2 = Finite m2 p2"
    and e2: "\<bar>dval (Finite m2 p2) - real_of_int n2 / real_of_int d2\<bar>
               \<le> \<bar>real_of_int n2\<bar> / real_of_int d2 / 9007199254740992"
    by auto
  define v2 where "v2 = dval (Finite m2 p2)"
  from e2 have e2': "\<bar>v2 - (v1 + ve)\<bar> \<le> \<bar>v1 + ve\<bar> / 9007199254740992"
    unfolding a2 r2 by (simp add: v2_def)
  have q2: "fadd (Finite m1 p1) (Finite 4835703278458517 (- 82)) = Finite m2 p2"
    using t2 by (simp only: fadd.simps n2_def d2_def)
  have b0: "\<bar>v0 - cr\<bar> \<le> 1 / 9" using e0' c2 by linarith
  have v0_hi': "\<bar>v0\<bar> \<le> 1000000000000001" using b0 c2 by linarith
  have b1: "\<bar>v1 - v0 / 100\<bar> \<le> 1 / 800" using e1' v0_hi' by linarith
  have v1_hi': "\<bar>v1\<bar> \<le> 10000000000001" using b1 v0_hi' by linarith
  have s_hi': "\<bar>v1 + ve\<bar> \<le> 10000000000002" using v1_hi' ve by linarith
  have "\<bar>v1 + ve\<bar> / 9007199254740992 \<le> 10000000000002 / (9007199254740992::real)"
    using s_hi' by (rule divide_right_mono) simp
  also have "\<dots> \<le> 1 / 800" by simp
  finally have "\<bar>v1 + ve\<bar> / 9007199254740992 \<le> 1 / 800" .
  with e2' have b2: "\<bar>v2 - (v1 + ve)\<bar> \<le> 1 / 800" by (rule order_trans)
  have close: "\<bar>100 * v2 - cr\<bar> < 1 / 2"
    using b0 b1 b2 ve by linarith
  have "real_of_int (dnum (Finite m2 p2) * 100) / real_of_int (dden (Finite m2 p2)) = 100 * v2"
    by (simp add: v2_def dval_def)
  with close have "\<bar>real_of_int (dnum (Finite m2 p2) * 100) / real_of_int (dden (Finite m2 p2))
      - real_of_int c\<bar> < 1 / 2"
    by (simp only: cr_def)
  from py_round_unique [OF dden_pos this]
  have q3: "round_2 (Finite m2 p2) = to_double c 100" by (simp only: round_2.simps)
  show ?thesis
    unfolding money_def f0 eps_double by (simp only: q1 q2 q3 sum.case)
qed

lemma returned_exact:
  assumes "list_all2 (\<lambda>(k, x) (k', c). k = k' \<and> money c = Inr x) r d"
  shows "list_all2 (\<lambda>(k, x) (k', c). k = k' \<and> money c = Inr x \<and>
           (\<bar>c\<bar> \<le> 1000000000000000 \<longrightarrow> x = to_double c 100)) r d"
  using assms by (rule list_all2_mono) (auto simp add: money_exact)

section \<open>Lemmas on the redistribution of a shortfall\<close>

lemma add_at_map_keys:
  "distinct os \<Longrightarrow>
   add_at x i (map (\<lambda>k. (k, f k)) os) = map (\<lambda>k. (k, if k = x then f k + i else f k)) os"
  by (induction os) auto

lemma fold_add_one:
  "distinct os \<Longrightarrow> distinct R \<Longrightarrow>
   fold (\<lambda>k. add_at k 1) R (map (\<lambda>k. (k, f k)) os) =
     map (\<lambda>k. (k, f k + (if k \<in> set R then 1 else 0))) os"
proof (induction R arbitrary: f)
  case Nil
  then show ?case by simp
next
  case (Cons x R)
  from Cons.prems have xR: "x \<notin> set R" and dR: "distinct R" by simp_all
  have "fold (\<lambda>k. add_at k 1) (x # R) (map (\<lambda>k. (k, f k)) os) =
        fold (\<lambda>k. add_at k 1) R (map (\<lambda>k. (k, if k = x then f k + 1 else f k)) os)"
    by (simp add: add_at_map_keys [OF Cons.prems(1)])
  also have "\<dots> = map (\<lambda>k. (k, (if k = x then f k + 1 else f k) +
                              (if k \<in> set R then 1 else 0))) os"
    by (rule Cons.IH [OF Cons.prems(1) dR])
  also have "\<dots> = map (\<lambda>k. (k, f k + (if k \<in> set (x # R) then 1 else 0))) os"
    using xR by (intro map_cong) auto
  finally show ?case .
qed

lemma take_sorted_least:
  assumes "k \<in> set (take n (sort_key f xs))" and "k' \<in> set xs"
    and "k' \<notin> set (take n (sort_key f xs))"
  shows "f k \<le> f k'"
proof -
  let ?ys = "sort_key f xs"
  have "sorted (map f (take n ?ys) @ map f (drop n ?ys))"
    by (metis append_take_drop_id map_append sorted_sort_key)
  moreover have "k' \<in> set (drop n ?ys)"
    using assms(2,3) by (metis Un_iff append_take_drop_id set_append set_sort)
  ultimately show ?thesis using assms(1) by (auto simp add: sorted_append)
qed

lemma sum_div_mod:
  "sum_list (map (\<lambda>k. a k mod D) xs) =
   sum_list (map a xs) - (D::int) * sum_list (map (\<lambda>k. a k div D) xs)"
proof (induction xs)
  case Nil
  then show ?case by simp
next
  case (Cons x xs)
  have "a x mod D = a x - D * (a x div D)" by (simp add: minus_mult_div_eq_mod)
  with Cons show ?case by (simp add: algebra_simps)
qed

lemma sum_mod_pos:
  "0 < (D::int) \<Longrightarrow> xs \<noteq> [] \<Longrightarrow> sum_list (map (\<lambda>k. a k mod D) xs) < D * int (length xs)"
proof (induction xs)
  case Nil
  then show ?case by simp
next
  case (Cons x xs)
  have x: "a x mod D < D" using Cons.prems(1) by simp
  show ?case
  proof (cases "xs = []")
    case True
    with x show ?thesis by simp
  next
    case False
    from Cons.IH [OF Cons.prems(1) False] x show ?thesis by (simp add: algebra_simps)
  qed
qed

lemma sum_mod_neg:
  "(D::int) < 0 \<Longrightarrow> xs \<noteq> [] \<Longrightarrow> D * int (length xs) < sum_list (map (\<lambda>k. a k mod D) xs)"
proof (induction xs)
  case Nil
  then show ?case by simp
next
  case (Cons x xs)
  have x: "D < a x mod D" using Cons.prems(1) by simp
  show ?case
  proof (cases "xs = []")
    case True
    with x show ?thesis by simp
  next
    case False
    from Cons.IH [OF Cons.prems(1) False] x show ?thesis by (simp add: algebra_simps)
  qed
qed

lemma sum_scale: "sum_list (map (\<lambda>k. (s::int) * t k) xs) = s * sum_list (map t xs)"
  by (induction xs) (simp_all add: algebra_simps)

lemma leftover_lt:
  assumes nz: "sum_list (map (tget d) os) \<noteq> 0"
  shows "leftover s d os < int (length os)"
proof -
  define D where "D = sum_list (map (tget d) os)"
  define L where "L = leftover s d os"
  from nz have ne: "os \<noteq> []" by auto
  have den: "denom_of d os = D" using nz by (simp add: denom_of_def D_def)
  have L': "L = s - sum_list (map (\<lambda>k. (s * tget d k) div D) os)"
    by (simp add: L_def leftover_def floor_shares_def den o_def)
  have sc: "sum_list (map (\<lambda>k. s * tget d k) os) = s * D"
    by (simp only: sum_scale D_def)
  have "sum_list (map (\<lambda>k. (s * tget d k) mod D) os) =
        s * D - D * sum_list (map (\<lambda>k. (s * tget d k) div D) os)"
    by (simp only: sum_div_mod [of "\<lambda>k. s * tget d k" D os] sc)
  also have "\<dots> = D * L" by (simp add: L' algebra_simps)
  finally have eq: "sum_list (map (\<lambda>k. (s * tget d k) mod D) os) = D * L" .
  from nz have "0 < D \<or> D < 0" by (auto simp add: D_def)
  then have "L < int (length os)"
  proof
    assume pos: "0 < D"
    from sum_mod_pos [OF pos ne, of "\<lambda>k. s * tget d k"] eq
    have "D * L < D * int (length os)" by simp
    with pos show ?thesis by (simp add: mult_less_cancel_left_pos)
  next
    assume neg: "D < 0"
    from sum_mod_neg [OF neg ne, of "\<lambda>k. s * tget d k"] eq
    have "D * int (length os) < D * L" by simp
    with neg show ?thesis by (simp add: mult_less_cancel_left_neg)
  qed
  then show ?thesis by (simp add: L_def)
qed

lemma sum_fold_add_one:
  "set R \<subseteq> fst ` set m \<Longrightarrow>
   sum_list (map snd (fold (\<lambda>k. add_at k 1) R m)) = sum_list (map snd m) + int (length R)"
proof (induction R arbitrary: m)
  case Nil
  then show ?case by simp
next
  case (Cons x R)
  from Cons.prems have x: "x \<in> fst ` set m" by simp
  have "fst ` set (add_at x 1 m) = fst ` set m" by (metis keys_add_at set_map)
  with Cons.prems have "set R \<subseteq> fst ` set (add_at x 1 m)" by simp
  from Cons.IH [OF this] show ?case by (simp add: sum_add_at [OF x])
qed

lemma apply_overpay_keys: "apply_overpay v d = Inr d' \<Longrightarrow> map fst d' = map fst d"
  by (auto simp add: apply_overpay_def keys_add_at split: sum.splits option.splits)

lemma fold_err_keys:
  assumes "\<And>x d d'. f x d = Inr d' \<Longrightarrow> map fst d' = map fst d"
  shows "fold_err f xs d = Inr d' \<Longrightarrow> map fst d' = map fst d"
proof (induction xs arbitrary: d)
  case Nil
  then show ?case by simp
next
  case (Cons x xs)
  then show ?case using assms by (fastforce split: sum.splits)
qed

lemma run_sum:
  assumes ne: "parts \<noteq> []" and run: "compute_allocations T parts pledges = Inr m"
  shows "sum_list (map snd m) = T"
proof -
  define N where "N = int (length parts)"
  define d1 where "d1 = spread_remainder (T - T div N * N) parts (init_targets (T div N) parts)"
  define vops where "vops = filter (\<lambda>p. ptype p = VolunteerOverpay \<and> active p) pledges"
  define bids where "bids = filter (\<lambda>p. ptype p = UnderpayBid \<and> active p) pledges"
  have unf: "compute_allocations T parts pledges =
      (case fold_err apply_overpay vops d1 of
         Inl e \<Rightarrow> Inl e
       | Inr d2 \<Rightarrow>
           (case fold_err apply_bid bids d2 of
              Inl e \<Rightarrow> Inl e
            | Inr d3 \<Rightarrow> Inr (final_correction T d3)))"
    unfolding compute_allocations_def Let_def cents_id N_def d1_def vops_def bids_def
    using ne by simp
  from run unf obtain d2 d3 where d2: "fold_err apply_overpay vops d1 = Inr d2"
    and d3: "fold_err apply_bid bids d2 = Inr d3" and m: "m = final_correction T d3"
    by (auto split: sum.splits)
  have "fst ` set d1 = set parts"
    using keys_spread [of "T - T div N * N" parts "init_targets (T div N) parts"]
      keys_init_targets [of "T div N" parts]
    by (metis d1_def set_map)
  moreover have "map fst d2 = map fst d1" using d2 apply_overpay_keys by (rule fold_err_keys [rotated])
  moreover have "map fst d3 = map fst d2" using d3 apply_bid_keys by (rule fold_err_keys [rotated])
  ultimately have "fst ` set d3 = set parts" by (metis set_map)
  with ne have "d3 \<noteq> []" by auto
  then show ?thesis unfolding m by (rule sum_final_correction)
qed

section \<open>Theorems\<close>

text \<open>
  C7. With no participants the function returns the empty mapping, whatever the total
  and the pledges are: it raises nothing and divides by nothing.
\<close>

theorem no_participants_empty:
  "compute_allocations total_amount [] pledges = Inr []"
  by (simp add: compute_allocations_def)

text \<open>
  C1, as stated, fails. A total of 9999999999.99 over three participants, with an active
  percent overpay of 9999999999.99 per cent on each of the first two: the integer targets
  sum to the total, but they are of the order of \<open>10 ^ 19\<close> cents, beyond the 53 bits of
  a double, and the floats returned are -333333329999333312, 333333336666000000 and
  3333333333.33 (the nearest double). Their \<^verbatim>\<open>sum\<close> is the float 10000000021.33, not
  9999999999.99.
\<close>

theorem conservation_counterexample:
  "compute_allocations 999999999999 [1, 2, 3]
     [Pledge 1 VolunteerOverpay Percent (Some 999999999999) True,
      Pledge 2 VolunteerOverpay Percent (Some 999999999999) True] =
     Inr [(1, - 33333332999933332139), (2, 33333333666599998805), (3, 333333333333)] \<and>
   compute_allocations_money 999999999999 [1, 2, 3]
     [Pledge 1 VolunteerOverpay Percent (Some 999999999999) True,
      Pledge 2 VolunteerOverpay Percent (Some 999999999999) True] =
     Inr [(1, to_double (- 333333329999333312) 1), (2, to_double 333333336666000000 1),
          (3, to_double 333333333333 100)] \<and>
   fsum [to_double (- 333333329999333312) 1, to_double 333333336666000000 1,
         to_double 333333333333 100] = to_double 1000000002133 100 \<and>
   to_double 1000000002133 100 \<noteq> to_double 999999999999 100"
  by code_simp

text \<open>
  C1, amended. Take any total, at least one participant, and pledges whose active
  entries all reference a participant. Whenever the function returns, the integer cent
  targets that its last line converts sum to the total exactly, whatever the pledges are
  (none included), and each returned amount is \<^verbatim>\<open>money\<close> of the target of its participant:
  for a target of at most \<open>10 ^ 15\<close> cents in magnitude, the double nearest to the target
  divided by 100.
  The function returns unless an active pledge of value type percent or fixed has no
  value (\<^verbatim>\<open>float(None)\<close> raises a \<^verbatim>\<open>TypeError\<close>) or a float operation overflows (an
  \<^verbatim>\<open>OverflowError\<close>).
\<close>

theorem conservation:
  assumes "parts \<noteq> []"
    and "\<forall>p\<in>set pledges. active p \<longrightarrow> participant_id p \<in> set parts"
  shows "case compute_allocations_money total_amount parts pledges of
           Inr r \<Rightarrow>
             (\<exists>d. compute_allocations total_amount parts pledges = Inr d \<and>
                  sum_list (map snd d) = total_amount \<and>
                  list_all2 (\<lambda>(k, x) (k', c). k = k' \<and> money c = Inr x \<and>
                    (\<bar>c\<bar> \<le> 1000000000000000 \<longrightarrow> x = to_double c 100)) r d)
         | Inl e \<Rightarrow>
             (e = TypeError \<and>
              (\<exists>p\<in>set pledges. active p \<and> value_type p \<noteq> NoValueType \<and> pvalue p = None)) \<or>
             e = OverflowError"
proof (cases "compute_allocations_money total_amount parts pledges")
  case (Inr r)
  from returned_Inr [OF Inr] obtain d
    where d: "compute_allocations total_amount parts pledges = Inr d"
      and r: "list_all2 (\<lambda>(k, x) (k', c). k = k' \<and> money c = Inr x) r d"
    by blast
  from run_cases [OF assms, of total_amount] d have "sum_list (map snd d) = total_amount"
    by auto
  with d returned_exact [OF r] show ?thesis by (simp add: Inr)
next
  case (Inl e)
  show ?thesis
  proof (cases "compute_allocations total_amount parts pledges")
    case inner: (Inl e')
    with Inl have "e' = e" by (simp add: compute_allocations_money_def)
    with run_cases [OF assms, of total_amount] inner show ?thesis
      by (auto simp add: Inl no_value_def)
  next
    case (Inr d)
    with Inl have "money_items d = Inl e" by (simp add: compute_allocations_money_def)
    with money_items_cases [of d] show ?thesis by (auto simp add: Inl)
  qed
qed

theorem conservation_witness:
  "[1, 2, 3] \<noteq> ([] :: int list) \<and>
   compute_allocations_money 10000 [1, 2, 3]
     [Pledge 1 VolunteerOverpay Percent (Some 1000) True,
      Pledge 2 UnderpayBid Fixed (Some 1000) True,
      Pledge 3 Equal NoValueType None True] =
     Inr [(1, to_double 3858 100), (2, to_double 2333 100), (3, to_double 3809 100)] \<and>
   compute_allocations 10000 [1, 2, 3]
     [Pledge 1 VolunteerOverpay Percent (Some 1000) True,
      Pledge 2 UnderpayBid Fixed (Some 1000) True,
      Pledge 3 Equal NoValueType None True] = Inr [(1, 3858), (2, 2333), (3, 3809)] \<and>
   sum_list (map snd [(1, 3858), (2, 2333), (3, 3809 :: int)]) = (10000 :: int)"
proof -
  let ?pl = "[Pledge 1 VolunteerOverpay Percent (Some 1000) True,
      Pledge 2 UnderpayBid Fixed (Some 1000) True,
      Pledge 3 Equal NoValueType None True]"
  have h1: "[1, 2, 3] \<noteq> ([] :: int list)" by simp
  have h2: "\<forall>p\<in>set ?pl. active p \<longrightarrow> participant_id p \<in> set [1, 2, 3]"
    by (simp add: Pledge_def)
  have ev: "compute_allocations 10000 [1, 2, 3] ?pl = Inr [(1, 3858), (2, 2333), (3, 3809)]"
    by code_simp
  have evm: "compute_allocations_money 10000 [1, 2, 3] ?pl =
      Inr [(1, to_double 3858 100), (2, to_double 2333 100), (3, to_double 3809 100)]"
    by code_simp
  from conservation [OF h1 h2, of 10000]
  have "sum_list (map snd [(1, 3858), (2, 2333), (3, 3809 :: int)]) = (10000 :: int)"
    by (simp add: ev evm)
  with h1 ev evm show ?thesis by simp
qed



text \<open>
  C10 (equal pledges are ignored). Removing every pledge of type Equal from the pledge
  rows, whatever its value type, value and active flag, leaves the result unchanged: the
  two loops only see the active pledges of type volunteer overpay and underpay bid.
\<close>

theorem equal_pledges_ignored:
  "compute_allocations total_amount parts (filter (\<lambda>p. ptype p \<noteq> Equal) pledges) =
   compute_allocations total_amount parts pledges"
  unfolding compute_allocations_def by (simp only: filter_drop_equal pledge_type.distinct
      not_False_eq_True)

theorem equal_pledges_ignored_witness:
  "compute_allocations 300 [1, 2, 3]
     [Pledge 1 UnderpayBid Percent (Some 5000) True] = 
   compute_allocations 300 [1, 2, 3]
     [Pledge 2 Equal Fixed (Some 700) True, Pledge 1 UnderpayBid Percent (Some 5000) True,
      Pledge 9 Equal NoValueType None False]"
  using equal_pledges_ignored [of 300 "[1, 2, 3]"
     "[Pledge 2 Equal Fixed (Some 700) True, Pledge 1 UnderpayBid Percent (Some 5000) True,
      Pledge 9 Equal NoValueType None False]"]
  by (simp add: Pledge_def)



text \<open>
  C2. For 300 cents, three participants and one active fixed overpay of 50 cents on the
  first, the overpay phase raises the first target to 150, the final correction finds the
  gap \<open>300 - 350 = -50\<close> and adds it to the holder of the largest target, the pledger:
  the result is 100, 100, 100, the result of the call with no pledge at all, and not the
  150, 100, 100 of the claim.
\<close>

theorem fixed_overpay_cancelled:
  "fold_err apply_overpay [Pledge 1 VolunteerOverpay Fixed (Some 50) True]
     [(1, 100), (2, 100), (3, 100)] = Inr [(1, 150), (2, 100), (3, 100)] \<and>
   final_correction 300 [(1, 150), (2, 100), (3, 100)] = [(1, 100), (2, 100), (3, 100)] \<and>
   compute_allocations 300 [1, 2, 3] [Pledge 1 VolunteerOverpay Fixed (Some 50) True] =
     Inr [(1, 100), (2, 100), (3, 100)] \<and>
   compute_allocations 300 [1, 2, 3] [] = Inr [(1, 100), (2, 100), (3, 100)] \<and>
   compute_allocations_money 300 [1, 2, 3] [Pledge 1 VolunteerOverpay Fixed (Some 50) True] =
     Inr [(1, to_double 100 100), (2, to_double 100 100), (3, to_double 100 100)]"
  by code_simp

text \<open>
  C8, as stated, fails: with an active percent pledge of value -50 per cent the function
  returns a mapping, for an overpay pledge and for an underpay bid alike. No error is
  raised; the source has no validation of percentages.
\<close>

theorem negative_percent_counterexample:
  "compute_allocations_money 300 [1, 2, 3]
     [Pledge 1 VolunteerOverpay Percent (Some (- 5000)) True] =
     Inr [(1, to_double 50 100), (2, to_double 150 100), (3, to_double 100 100)] \<and>
   compute_allocations_money 300 [1, 2, 3]
     [Pledge 1 UnderpayBid Percent (Some (- 5000)) True] =
     Inr [(1, to_double 100 100), (2, to_double 100 100), (3, to_double 100 100)]"
  by code_simp

text \<open>
  C8, amended. An active percent pledge of negative value raises no error of its own.
  When there is at least one participant, every active pledge references a participant
  and every active percent or fixed pledge has a value, the function returns a mapping
  with one amount per participant, each \<^verbatim>\<open>money\<close> of an integer cent target (the double
  nearest to the target divided by 100, for a target of at most \<open>10 ^ 15\<close> cents in
  magnitude), the targets summing to the total; the only failure left is the
  \<^verbatim>\<open>OverflowError\<close> of a float operation that overflows.
\<close>

theorem negative_percent_accepted:
  assumes "parts \<noteq> []"
    and "\<forall>p\<in>set pledges. active p \<longrightarrow> participant_id p \<in> set parts"
    and "\<forall>p\<in>set pledges. active p \<longrightarrow> value_type p \<noteq> NoValueType \<longrightarrow> pvalue p \<noteq> None"
    and "p \<in> set pledges" and "active p" and "value_type p = Percent"
    and "pvalue p = Some x" and "x < 0"
  shows "case compute_allocations_money total_amount parts pledges of
           Inr r \<Rightarrow>
             (\<exists>d. compute_allocations total_amount parts pledges = Inr d \<and>
                  sum_list (map snd d) = total_amount \<and> fst ` set d = set parts \<and>
                  list_all2 (\<lambda>(k, x) (k', c). k = k' \<and> money c = Inr x \<and>
                    (\<bar>c\<bar> \<le> 1000000000000000 \<longrightarrow> x = to_double c 100)) r d)
         | Inl e \<Rightarrow> e = OverflowError"
proof (cases "compute_allocations_money total_amount parts pledges")
  case (Inr r)
  from returned_Inr [OF Inr] obtain d
    where d: "compute_allocations total_amount parts pledges = Inr d"
      and r: "list_all2 (\<lambda>(k, x) (k', c). k = k' \<and> money c = Inr x) r d"
    by blast
  from run_cases [OF assms(1,2), of total_amount] d
  have "sum_list (map snd d) = total_amount"
    and "map fst d = map fst (init_targets (total_amount div int (length parts)) parts)"
    by auto
  then have "sum_list (map snd d) = total_amount \<and> fst ` set d = set parts"
    using keys_init_targets [of "total_amount div int (length parts)" parts]
    by (metis set_map)
  with d returned_exact [OF r] show ?thesis by (simp add: Inr)
next
  case (Inl e)
  show ?thesis
  proof (cases "compute_allocations total_amount parts pledges")
    case inner: (Inl e')
    with Inl have "e' = e" by (simp add: compute_allocations_money_def)
    with run_cases [OF assms(1,2), of total_amount] inner assms(3) show ?thesis
      by (auto simp add: Inl no_value_def)
  next
    case (Inr d)
    with Inl have "money_items d = Inl e" by (simp add: compute_allocations_money_def)
    with money_items_cases [of d] show ?thesis by (auto simp add: Inl)
  qed
qed

theorem negative_percent_accepted_witness:
  "[1, 2] \<noteq> ([] :: int list) \<and>
   compute_allocations_money 200 [1, 2] [Pledge 2 VolunteerOverpay Percent (Some (- 2500)) True] =
     Inr [(1, to_double 125 100), (2, to_double 75 100)] \<and>
   compute_allocations 200 [1, 2] [Pledge 2 VolunteerOverpay Percent (Some (- 2500)) True] =
     Inr [(1, 125), (2, 75)] \<and>
   sum_list (map snd [(1, 125), (2, 75 :: int)]) = (200 :: int)"
proof -
  let ?p = "Pledge 2 VolunteerOverpay Percent (Some (- 2500)) True"
  have h1: "[1, 2] \<noteq> ([] :: int list)" by simp
  have h2: "\<forall>p\<in>set [?p]. active p \<longrightarrow> participant_id p \<in> set [1, 2]"
    by (simp add: Pledge_def)
  have h3: "\<forall>p\<in>set [?p]. active p \<longrightarrow> value_type p \<noteq> NoValueType \<longrightarrow> pvalue p \<noteq> None"
    by (simp add: Pledge_def)
  have h4: "?p \<in> set [?p]" by simp
  have h5: "active ?p" by (simp add: Pledge_def)
  have h6: "value_type ?p = Percent" by (simp add: Pledge_def)
  have h7: "pvalue ?p = Some (- 2500)" by (simp add: Pledge_def)
  have h8: "(- 2500 :: int) < 0" by simp
  have ev: "compute_allocations 200 [1, 2] [?p] = Inr [(1, 125), (2, 75)]" by code_simp
  have evm: "compute_allocations_money 200 [1, 2] [?p] =
      Inr [(1, to_double 125 100), (2, to_double 75 100)]" by code_simp
  from negative_percent_accepted [OF h1 h2 h3 h4 h5 h6 h7 h8, of 200]
  have "sum_list (map snd [(1, 125), (2, 75 :: int)]) = (200 :: int)"
    by (simp add: ev evm)
  with h1 ev evm show ?thesis by simp
qed

text \<open>
  C5. A percent underpay bid is not clamped to the current target as a fixed one is. A bid
  of 150 per cent on a target of 100 cents has the shortfall 150, and taking it off
  leaves the bidder at -50 cents before redistribution (and in the result), where a fixed
  bid of 150 cents on the same target has the shortfall \<open>min 150 100 = 100\<close>. Even a bid
  of exactly 100 per cent can exceed its target, by the rounding of the float product:
  on a target of 25648954167577183 cents its shortfall is 25648954167577184.
\<close>

theorem percent_bid_below_zero:
  "bid_shortfall [(1, 100), (2, 100), (3, 100)]
     (Pledge 1 UnderpayBid Percent (Some 15000) True) = Inr 150 \<and>
   map_of (subtract_shortfall 1 150 [(1, 100), (2, 100), (3, 100)]) 1 = Some (- 50) \<and>
   compute_allocations 300 [1, 2, 3] [Pledge 1 UnderpayBid Percent (Some 15000) True] =
     Inr [(1, - 50), (2, 175), (3, 175)] \<and>
   bid_shortfall [(1, 100), (2, 100), (3, 100)]
     (Pledge 1 UnderpayBid Fixed (Some 150) True) = Inr 100 \<and>
   bid_shortfall [(1, 25648954167577183), (2, 0)]
     (Pledge 1 UnderpayBid Percent (Some 10000) True) = Inr 25648954167577184"
  by code_simp

text \<open>
  C6, as stated, fails in two ways. First, when the other targets sum to zero: one cent
  over two participants, an active fixed overpay of 2 cents and an active percent
  underpay bid of 100 per cent, both on the first participant. The bid has the shortfall
  3, the only other participant is at 0 cents, the denominator is replaced by 1, the floor
  shares sum to 0 and 3 cents are left over; the slice of the sorted others has one entry
  only, so one cent is assigned and two are not. Second, in the floats returned: a total
  of 9999999999.99 over three participants, an active percent overpay of 9999999999.99
  per cent on each of the first two and an active fixed underpay bid of 7 cents on the
  third. The bid leaves one cent over, which goes to the first participant; the integer
  targets sum to the total, and the \<^verbatim>\<open>sum\<close> of the floats returned is 10000000021.26.
\<close>

theorem leftover_cents_counterexample:
  "compute_allocations 1 [1, 2]
     [Pledge 1 VolunteerOverpay Fixed (Some 2) True,
      Pledge 1 UnderpayBid Percent (Some 10000) True] = Inr [(1, 0), (2, 1)] \<and>
   fold_err apply_overpay [Pledge 1 VolunteerOverpay Fixed (Some 2) True] [(1, 1), (2, 0)] =
     Inr [(1, 3), (2, 0)] \<and>
   bid_shortfall [(1, 3), (2, 0)] (Pledge 1 UnderpayBid Percent (Some 10000) True) = Inr 3 \<and>
   subtract_shortfall 1 3 [(1, 3), (2, 0)] = [(1, 0), (2, 0)] \<and>
   leftover 3 [(1, 0), (2, 0)] (others_of [(1, 0), (2, 0)] 1) = 3 \<and>
   leftover_recipients 3 [(1, 0), (2, 0)] (others_of [(1, 0), (2, 0)] 1) = [2] \<and>
   add_map 3 [(1, 0), (2, 0)] (others_of [(1, 0), (2, 0)] 1) = [(2, 1)] \<and>
   leftover 7
     [(1, 33333333666599998805), (2, 33333333666599998805), (3, 333333333326)]
     (others_of
        [(1, 33333333666599998805), (2, 33333333666599998805), (3, 333333333326)] 3) = 1 \<and>
   compute_allocations 999999999999 [1, 2, 3]
     [Pledge 1 VolunteerOverpay Percent (Some 999999999999) True,
      Pledge 2 VolunteerOverpay Percent (Some 999999999999) True,
      Pledge 3 UnderpayBid Fixed (Some 7) True] =
     Inr [(1, - 33333332999933332135), (2, 33333333666599998808), (3, 333333333326)] \<and>
   compute_allocations_money 999999999999 [1, 2, 3]
     [Pledge 1 VolunteerOverpay Percent (Some 999999999999) True,
      Pledge 2 VolunteerOverpay Percent (Some 999999999999) True,
      Pledge 3 UnderpayBid Fixed (Some 7) True] =
     Inr [(1, to_double (- 333333329999333312) 1), (2, to_double 333333336666000000 1),
          (3, to_double 333333333326 100)] \<and>
   fsum [to_double (- 333333329999333312) 1, to_double 333333336666000000 1,
         to_double 333333333326 100] = to_double 1000000002126 100 \<and>
   to_double 1000000002126 100 \<noteq> to_double 999999999999 100"
  by code_simp

text \<open>
  C6, amended. Let \<open>d\<close> be the targets (with distinct keys, as a dict has) once the
  shortfall \<open>s\<close> of a bid of participant \<open>pid\<close> is taken off, and let the floor shares leave
  a positive number of cents over. The recipients of an extra cent are the first
  \<open>min leftover (number of others)\<close> other participants in descending order of current
  target: the leading entries of the others sorted by descending target, a sort that keeps
  the order of the others among equal targets. No other participant outside the recipients
  has a larger target than one of them; each other participant's increment is its floor
  share plus one cent if it is a recipient; when the other targets do not sum to zero the
  increments sum to the shortfall, so every leftover cent is assigned; and when the call,
  for at least one participant, returns, the integer cent targets that its last line
  converts sum to the total, each returned amount being \<^verbatim>\<open>money\<close> of its target (the double
  nearest to the target divided by 100, for a target of at most \<open>10 ^ 15\<close> cents in
  magnitude).
\<close>

theorem leftover_cents:
  assumes dist: "distinct (map fst d)"
    and pos: "0 < leftover s d (others_of d pid)"
    and ne: "parts \<noteq> []"
    and run: "compute_allocations_money total_amount parts pledges = Inr r"
  shows "leftover_recipients s d (others_of d pid) =
           take (nat (leftover s d (others_of d pid)))
             (sort_key (\<lambda>k. - tget d k) (others_of d pid)) \<and>
         sorted_wrt (\<lambda>k k'. tget d k' \<le> tget d k)
           (sort_key (\<lambda>k. - tget d k) (others_of d pid)) \<and>
         distinct (sort_key (\<lambda>k. - tget d k) (others_of d pid)) \<and>
         set (sort_key (\<lambda>k. - tget d k) (others_of d pid)) = set (others_of d pid) \<and>
         (\<forall>v. filter (\<lambda>k. tget d k = v) (sort_key (\<lambda>k. - tget d k) (others_of d pid)) =
              filter (\<lambda>k. tget d k = v) (others_of d pid)) \<and>
         length (leftover_recipients s d (others_of d pid)) =
           min (nat (leftover s d (others_of d pid))) (length (others_of d pid)) \<and>
         (\<forall>k\<in>set (leftover_recipients s d (others_of d pid)).
            \<forall>k'\<in>set (others_of d pid) - set (leftover_recipients s d (others_of d pid)).
              tget d k' \<le> tget d k) \<and>
         add_map s d (others_of d pid) =
           map (\<lambda>k. (k, s * tget d k div denom_of d (others_of d pid) +
                     (if k \<in> set (leftover_recipients s d (others_of d pid)) then 1 else 0)))
             (others_of d pid) \<and>
         (sum_list (map (tget d) (others_of d pid)) \<noteq> 0 \<longrightarrow>
            sum_list (map snd (add_map s d (others_of d pid))) = s) \<and>
         (\<exists>t. compute_allocations total_amount parts pledges = Inr t \<and>
              sum_list (map snd t) = total_amount \<and>
              list_all2 (\<lambda>(k, x) (k', c). k = k' \<and> money c = Inr x \<and>
                (\<bar>c\<bar> \<le> 1000000000000000 \<longrightarrow> x = to_double c 100)) r t)"
proof -
  define os where "os = others_of d pid"
  define L where "L = leftover s d os"
  define R where "R = leftover_recipients s d os"
  define S where "S = sort_key (\<lambda>k. - tget d k) os"
  from pos have Lpos: "0 < L" by (simp add: L_def os_def)
  have dos: "distinct os" using dist by (simp add: os_def others_of_def)
  have R: "R = take (nat L) S"
    using Lpos by (simp add: R_def S_def leftover_recipients_def py_take_def L_def)
  have "sorted (map (\<lambda>k. - tget d k) S)" by (simp add: S_def)
  then have srt: "sorted_wrt (\<lambda>k k'. tget d k' \<le> tget d k) S"
    by (simp add: sorted_wrt_map)
  have dS: "distinct S" and sS: "set S = set os" using dos by (simp_all add: S_def)
  have stab: "\<forall>v. filter (\<lambda>k. tget d k = v) S = filter (\<lambda>k. tget d k = v) os"
  proof
    fix v
    from sort_key_stable [of "\<lambda>k. - tget d k" "- v" os]
    show "filter (\<lambda>k. tget d k = v) S = filter (\<lambda>k. tget d k = v) os"
      by (simp add: S_def)
  qed
  have dR: "distinct R" using dS by (simp add: R)
  have len: "length R = min (nat L) (length os)" by (simp add: R S_def min.commute)
  have ord: "\<forall>k\<in>set R. \<forall>k'\<in>set os - set R. tget d k' \<le> tget d k"
  proof (intro ballI)
    fix k k'
    assume "k \<in> set R" and "k' \<in> set os - set R"
    then have "- tget d k \<le> - tget d k'"
      unfolding R S_def
      by (intro take_sorted_least [of k "nat L" "\<lambda>k. - tget d k" os k']) simp_all
    then show "tget d k' \<le> tget d k" by simp
  qed
  have am: "add_map s d os =
      map (\<lambda>k. (k, s * tget d k div denom_of d os + (if k \<in> set R then 1 else 0))) os"
    unfolding add_map_def floor_shares_def R_def [symmetric]
    by (rule fold_add_one [OF dos dR])
  have all: "sum_list (map snd (add_map s d os)) = s" if nz: "sum_list (map (tget d) os) \<noteq> 0"
  proof -
    from leftover_lt [OF nz, of s] have "L < int (length os)" by (simp add: L_def)
    with Lpos len have lenR: "int (length R) = L" by simp
    have "set R \<subseteq> fst ` set (floor_shares s d os)"
      by (auto simp add: R S_def floor_shares_def image_image dest: in_set_takeD)
    from sum_fold_add_one [OF this]
    have "sum_list (map snd (add_map s d os)) =
          sum_list (map snd (floor_shares s d os)) + int (length R)"
      by (simp add: add_map_def R_def)
    also have "\<dots> = (s - L) + L" by (simp add: lenR L_def leftover_def)
    finally show ?thesis by simp
  qed
  from returned_Inr [OF run] obtain t
    where t: "compute_allocations total_amount parts pledges = Inr t"
      and rt: "list_all2 (\<lambda>(k, x) (k', c). k = k' \<and> money c = Inr x) r t"
    by blast
  from run_sum [OF ne t] t returned_exact [OF rt]
  have fin: "\<exists>t. compute_allocations total_amount parts pledges = Inr t \<and>
              sum_list (map snd t) = total_amount \<and>
              list_all2 (\<lambda>(k, x) (k', c). k = k' \<and> money c = Inr x \<and>
                (\<bar>c\<bar> \<le> 1000000000000000 \<longrightarrow> x = to_double c 100)) r t"
    by blast
  from R srt dS sS stab len ord am all fin show ?thesis
    unfolding os_def [symmetric] L_def [symmetric] R_def [symmetric] S_def [symmetric]
    by blast
qed

theorem leftover_cents_witness:
  "distinct (map fst [(1, 24), (2, 33), (3, 38 :: int)] :: int list) \<and>
   leftover 10 [(1, 24), (2, 33), (3, 38)] (others_of [(1, 24), (2, 33), (3, 38)] 1) = 1 \<and>
   leftover_recipients 10 [(1, 24), (2, 33), (3, 38)] (others_of [(1, 24), (2, 33), (3, 38)] 1) = [3] \<and>
   add_map 10 [(1, 24), (2, 33), (3, 38)] (others_of [(1, 24), (2, 33), (3, 38)] 1) =
     [(2, 4), (3, 6)] \<and>
   compute_allocations_money 100 [1, 2, 3]
     [Pledge 3 VolunteerOverpay Fixed (Some 5) True, Pledge 1 UnderpayBid Fixed (Some 10) True] =
     Inr [(1, to_double 24 100), (2, to_double 37 100), (3, to_double 39 100)] \<and>
   compute_allocations 100 [1, 2, 3]
     [Pledge 3 VolunteerOverpay Fixed (Some 5) True, Pledge 1 UnderpayBid Fixed (Some 10) True] =
     Inr [(1, 24), (2, 37), (3, 39)] \<and>
   sum_list (map snd [(1, 24), (2, 37), (3, 39 :: int)]) = (100 :: int)"
proof -
  let ?d = "[(1, 24), (2, 33), (3, 38)] :: targets"
  let ?pl = "[Pledge 3 VolunteerOverpay Fixed (Some 5) True,
              Pledge 1 UnderpayBid Fixed (Some 10) True]"
  have h1: "distinct (map fst ?d)" by simp
  have lo: "leftover 10 ?d (others_of ?d 1) = 1" by code_simp
  have h2: "0 < leftover 10 ?d (others_of ?d 1)" by (simp add: lo)
  have h3: "[1, 2, 3] \<noteq> ([] :: int list)" by simp
  have h4: "compute_allocations_money 100 [1, 2, 3] ?pl =
      Inr [(1, to_double 24 100), (2, to_double 37 100), (3, to_double 39 100)]"
    by code_simp
  have ev: "compute_allocations 100 [1, 2, 3] ?pl = Inr [(1, 24), (2, 37), (3, 39)]"
    by code_simp
  have rc: "leftover_recipients 10 ?d (others_of ?d 1) = [3]" by code_simp
  have os: "others_of ?d 1 = [2, 3]" by (simp add: others_of_def)
  have rc': "leftover_recipients 10 ?d [2, 3] = [3]" using rc by (simp only: os)
  from leftover_cents [OF h1 h2 h3 h4]
  have "add_map 10 ?d (others_of ?d 1) = [(2, 4), (3, 6)] \<and>
        sum_list (map snd [(1, 24), (2, 37), (3, 39 :: int)]) = (100 :: int)"
    by (simp add: os rc' denom_of_def tget_def ev)
  with h1 lo rc h4 ev show ?thesis by simp
qed

end
